theory Spec2Isabelle
  imports Main "HOL-Library.Multiset" "HOL-Library.AList"
begin

chapter \<open>The model\<close>

section \<open>Dates\<close>

text \<open>
  Every \<^verbatim>\<open>Date\<close> the timeline code works with holds local midnight
  (\<^verbatim>\<open>setHours(0, 0, 0, 0)\<close>, \<^verbatim>\<open>new Date(year, month, day)\<close>). A date is modelled by
  its day number, an integer: the days since 1970-01-01, \<open>Day(t)\<close> of ECMAScript.
  The model has whole-day granularity: local time is taken to be UTC, so that the key
  \<^verbatim>\<open>toISOString().slice(0, 10)\<close> of a date names its own day, and the keys
  \<^verbatim>\<open>YYYY-MM-DD\<close> (years 0000 to 9999) are in one-to-one, order-preserving
  correspondence with the day numbers; a key is modelled by the day number.
  The comparisons of the source (\<^verbatim>\<open><=\<close>, \<^verbatim>\<open>>=\<close>, \<^verbatim>\<open><\<close>,
  \<^verbatim>\<open>getTime() - getTime()\<close>) are the comparisons of day numbers. Day numbers are
  unbounded: the end of the time range of \<^verbatim>\<open>Date\<close>, 100,000,000 days from 1970-01-01,
  is not modelled.

  The calendar functions are those of the ECMAScript specification (section
  ``Time Values and Time Range''), written on day numbers.
\<close>

definition DayFromYear :: "int \<Rightarrow> int" where
  "DayFromYear y = 365 * (y - 1970) + (y - 1969) div 4 - (y - 1901) div 100 + (y - 1601) div 400"

definition DaysInYear :: "int \<Rightarrow> int" where
  "DaysInYear y =
     (if y mod 4 \<noteq> 0 then 365 else if y mod 100 \<noteq> 0 then 366
      else if y mod 400 \<noteq> 0 then 365 else 366)"

text \<open>
  \<open>YearFromTime t\<close> is the largest year \<open>y\<close> with \<open>DayFromYear y \<le> t\<close>
  (lemma \<open>YearFromTime_largest\<close>); it is computed from an estimate that is off by at
  most one.
\<close>

definition YearFromTime :: "int \<Rightarrow> int" where
  "YearFromTime t =
     (let y = 1970 + (400 * t) div 146097
      in if t < DayFromYear y then y - 1 else if DayFromYear (y + 1) \<le> t then y + 1 else y)"

definition InLeapYear :: "int \<Rightarrow> int" where
  "InLeapYear t = (if DaysInYear (YearFromTime t) = 366 then 1 else 0)"

definition DayWithinYear :: "int \<Rightarrow> int" where
  "DayWithinYear t = t - DayFromYear (YearFromTime t)"

text \<open>The day within the year on which month \<open>m\<close> (0 to 11) starts.\<close>

definition monthOffset :: "int \<Rightarrow> int \<Rightarrow> int" where
  "monthOffset m leap =
     (if m = 0 then 0 else if m = 1 then 31 else if m = 2 then 59 + leap
      else if m = 3 then 90 + leap else if m = 4 then 120 + leap
      else if m = 5 then 151 + leap else if m = 6 then 181 + leap
      else if m = 7 then 212 + leap else if m = 8 then 243 + leap
      else if m = 9 then 273 + leap else if m = 10 then 304 + leap else 334 + leap)"

definition MonthFromTime :: "int \<Rightarrow> int" where
  "MonthFromTime t =
     (let n = DayWithinYear t; leap = InLeapYear t
      in if n < 31 then 0 else if n < 59 + leap then 1 else if n < 90 + leap then 2
         else if n < 120 + leap then 3 else if n < 151 + leap then 4
         else if n < 181 + leap then 5 else if n < 212 + leap then 6
         else if n < 243 + leap then 7 else if n < 273 + leap then 8
         else if n < 304 + leap then 9 else if n < 334 + leap then 10 else 11)"

definition DateFromTime :: "int \<Rightarrow> int" where
  "DateFromTime t = DayWithinYear t - monthOffset (MonthFromTime t) (InLeapYear t) + 1"

definition WeekDay :: "int \<Rightarrow> int" where
  "WeekDay t = (t + 4) mod 7"

text \<open>
  \<open>MakeDay year month date\<close>: the day number of the first day of the month, plus
  \<open>date - 1\<close>; \<open>month\<close> and \<open>date\<close> may lie outside their calendar ranges.
\<close>

definition MakeDay :: "int \<Rightarrow> int \<Rightarrow> int \<Rightarrow> int" where
  "MakeDay year month date =
     (let ym = year + month div 12; mn = month mod 12
      in DayFromYear ym + monthOffset mn (if DaysInYear ym = 366 then 1 else 0) + date - 1)"

text \<open>The methods of \<^verbatim>\<open>Date\<close> that the source calls.\<close>

definition getFullYear :: "int \<Rightarrow> int" where
  "getFullYear t = YearFromTime t"

definition getMonth :: "int \<Rightarrow> int" where
  "getMonth t = MonthFromTime t"

definition getDate :: "int \<Rightarrow> int" where
  "getDate t = DateFromTime t"

text \<open>\<^verbatim>\<open>getDay()\<close>: 0 for Sunday, 1 for Monday, ..., 6 for Saturday.\<close>

definition getDay :: "int \<Rightarrow> int" where
  "getDay t = WeekDay t"

text \<open>
  \<^verbatim>\<open>new Date(year, month, date)\<close>. The constructor reads a year from 0 to 99 as
  1900 + year.
\<close>

definition newDate :: "int \<Rightarrow> int \<Rightarrow> int \<Rightarrow> int" where
  "newDate year month date = MakeDay (if 0 \<le> year \<and> year \<le> 99 then 1900 + year else year) month date"

text \<open>\<^verbatim>\<open>t.setDate(date)\<close>: the value of \<open>t\<close> afterwards.\<close>

definition setDate :: "int \<Rightarrow> int \<Rightarrow> int" where
  "setDate t date = MakeDay (YearFromTime t) (MonthFromTime t) date"

subsection \<open>End before start\<close>

text \<open>
  \<^verbatim>\<open>if (endDate < startDate) { endDate.setDate(startDate.getDate()); }\<close> in
  \<^verbatim>\<open>updatePeopleTimeline\<close>, \<^verbatim>\<open>getCustomerData\<close> and \<^verbatim>\<open>getMilestoneData\<close>: the end date
  of the interval after the step.
\<close>

definition normalizeEndDate_setDate :: "int \<Rightarrow> int \<Rightarrow> int" where
  "normalizeEndDate_setDate startD endD =
     (if endD < startD then setDate endD (getDate startD) else endD)"

text \<open>
  \<^verbatim>\<open>if (project.endDate < project.startDate) { project.endDate = new Date(project.startDate); }\<close>
  in \<^verbatim>\<open>updateProjectTimelines\<close>.
\<close>

definition normalizeEndDate_copy :: "int \<Rightarrow> int \<Rightarrow> int" where
  "normalizeEndDate_copy startD endD =
     (if endD < startD then startD else endD)"

section \<open>The column index\<close>

text \<open>
  \<^verbatim>\<open>getStartOfWeek\<close> is the same in both source files.
\<close>

definition getStartOfWeek :: "int \<Rightarrow> int" where
  "getStartOfWeek date =
     (let d = date;
          day = getDay d;
          diff = getDate d - day + (if day = 0 then - 6 else 1)
      in newDate (getFullYear d) (getMonth d) diff)"

text \<open>
  \<^verbatim>\<open>getEndOfWeek\<close> adds 4 days to the Monday in \<^verbatim>\<open>Code.js\<close> (Friday) and 6 days in
  the other source file (Sunday). The flag \<open>includeWeekends\<close> selects the variant:
  \<open>False\<close> is \<^verbatim>\<open>Code.js\<close>, \<open>True\<close> the other file.
\<close>

definition getEndOfWeek :: "bool \<Rightarrow> int \<Rightarrow> int" where
  "getEndOfWeek includeWeekends date =
     (let startOfWeek = getStartOfWeek date;
          endOfWeek = startOfWeek
      in setDate endOfWeek (getDate startOfWeek + (if includeWeekends then 6 else 4)))"

text \<open>
  A month of a date is in 0..11, so \<open>MakeDay\<close> on the year and month of a date counts
  from the first day of that date's month. With it, \<^verbatim>\<open>setDate(getDate() + 1)\<close> is the
  next day, which the day walk needs to end.
\<close>

lemma MonthFromTime_range: "0 \<le> MonthFromTime t \<and> MonthFromTime t \<le> 11"
  by (simp add: MonthFromTime_def Let_def)

lemma MakeDay_own_month:
  "MakeDay (YearFromTime t) (MonthFromTime t) date = t - DateFromTime t + date"
proof -
  from MonthFromTime_range [of t]
  have "MonthFromTime t div 12 = 0" "MonthFromTime t mod 12 = MonthFromTime t" by simp_all
  then show ?thesis
    by (simp add: MakeDay_def DateFromTime_def DayWithinYear_def InLeapYear_def)
qed

lemma setDate_getDate: "setDate t (getDate t + k) = t + k"
  by (simp add: setDate_def getDate_def MakeDay_own_month)

text \<open>
  The \<^verbatim>\<open>while (currentDate <= lastChartDate)\<close> loop of \<^verbatim>\<open>generateTimelineHeaders\<close>.
  \<^verbatim>\<open>dailyDateToSheetColMap\<close> is a \<^verbatim>\<open>Map\<close>: an association list in insertion order,
  \<^verbatim>\<open>set\<close> being \<^const>\<open>AList.update\<close> (a new key goes to the end) and \<^verbatim>\<open>get\<close> being
  \<^const>\<open>map_of\<close> (\<open>None\<close> for \<^verbatim>\<open>undefined\<close>). \<^verbatim>\<open>Code.js\<close> gives a column to the days
  with \<^verbatim>\<open>dayOfWeek >= 1 && dayOfWeek <= 5\<close> only; the other file to every day. The
  weekly header strings, which no claim is about, are left out.
\<close>

function dayWalk :: "bool \<Rightarrow> int \<Rightarrow> int \<Rightarrow> (int \<times> int) list \<Rightarrow> int \<Rightarrow> (int \<times> int) list \<times> int" where
  "dayWalk includeWeekends lastChartDate currentDate dailyDateToSheetColMap currentSheetColIndex =
     (if currentDate \<le> lastChartDate
      then (let dayOfWeek = getDay currentDate
            in if includeWeekends \<or> (dayOfWeek \<ge> 1 \<and> dayOfWeek \<le> 5)
               then dayWalk includeWeekends lastChartDate (setDate currentDate (getDate currentDate + 1))
                      (AList.update currentDate currentSheetColIndex dailyDateToSheetColMap)
                      (currentSheetColIndex + 1)
               else dayWalk includeWeekends lastChartDate (setDate currentDate (getDate currentDate + 1))
                      dailyDateToSheetColMap currentSheetColIndex)
      else (dailyDateToSheetColMap, currentSheetColIndex))"
  by pat_completeness auto
termination
  by (relation "measure (\<lambda>(w, l, c, m, i). nat (l + 1 - c))") (simp_all add: setDate_getDate)

declare dayWalk.simps [simp del]

text \<open>
  The first part of \<^verbatim>\<open>generateTimelineHeaders\<close>: the map and the value of
  \<^verbatim>\<open>currentSheetColIndex\<close> after the loop.
\<close>

definition buildColumnIndex :: "bool \<Rightarrow> int \<Rightarrow> int \<Rightarrow> int \<Rightarrow> (int \<times> int) list \<times> int" where
  "buildColumnIndex includeWeekends minOverallDate maxOverallDate firstFixedColumnIndex =
     (let currentSheetColIndex = firstFixedColumnIndex + 1;
          firstChartDate = getStartOfWeek minOverallDate;
          lastChartDate = getEndOfWeek includeWeekends maxOverallDate;
          currentDate = firstChartDate
      in dayWalk includeWeekends lastChartDate currentDate [] currentSheetColIndex)"




text \<open>The days that get a column.\<close>

definition indexedDay :: "bool \<Rightarrow> int \<Rightarrow> bool" where
  "indexedDay includeWeekends d = (includeWeekends \<or> (getDay d \<ge> 1 \<and> getDay d \<le> 5))"

section \<open>Term header segments\<close>

















section \<open>Bar columns\<close>








section \<open>Colours\<close>

text \<open>
  \<^verbatim>\<open>availableColors\<close>, and the two variables \<^verbatim>\<open>projectColors\<close> (a \<^verbatim>\<open>Map\<close>) and
  \<^verbatim>\<open>colorIndex\<close> that \<^verbatim>\<open>getProjectColor\<close> closes over; they are created once per call
  of \<^verbatim>\<open>updatePeopleTimeline\<close> / \<^verbatim>\<open>updateProjectTimelines\<close>.
\<close>

definition availableColors :: "string list" where
  "availableColors =
     [''#ADD8E6'', ''#90EE90'', ''#FFDAB9'', ''#B0E0E6'', ''#DDA0DD'', ''#F0E68C'',
      ''#87CEEB'', ''#F5DEB3'', ''#C0C0C0'', ''#FFA07A'', ''#20B2AA'', ''#E6E6FA'',
      ''#FFB6C1'', ''#AFEEEE'', ''#F08080'', ''#DA70D6'', ''#FFEFD5'', ''#FFE4B5'', ''#7FFFD4'']"

record colorState =
  projectColors :: "string \<rightharpoonup> string"
  colorIndex :: nat

definition newColorState :: colorState where
  "newColorState = \<lparr>projectColors = Map.empty, colorIndex = 0\<rparr>"

text \<open>
  \<^verbatim>\<open>getProjectColor\<close>: the value returned (\<^verbatim>\<open>projectColors.get(projectIdentifier)\<close>,
  \<open>None\<close> for \<^verbatim>\<open>undefined\<close>) and the state afterwards.
\<close>

definition getProjectColor :: "colorState \<Rightarrow> string \<Rightarrow> string option \<times> colorState" where
  "getProjectColor st projectIdentifier =
     (let st' = (if projectColors st projectIdentifier = None
                 then \<lparr>projectColors = (projectColors st)
                          (projectIdentifier \<mapsto> availableColors ! (colorIndex st mod length availableColors)),
                       colorIndex = colorIndex st + 1\<rparr>
                 else st)
      in (projectColors st' projectIdentifier, st'))"

text \<open>A run: the colours returned for a sequence of requests, and the final state.\<close>

fun colorRun :: "colorState \<Rightarrow> string list \<Rightarrow> string option list \<times> colorState" where
  "colorRun st [] = ([], st)"
| "colorRun st (projectIdentifier # later) =
     (let (c, st') = getProjectColor st projectIdentifier;
          (cs, st'') = colorRun st' later
      in (c # cs, st''))"

text \<open>
  The number of distinct identifiers requested before the first request of \<open>x\<close>, and
  the invariant of a run after the requests \<open>p\<close>.
\<close>

definition seenBefore :: "string list \<Rightarrow> string \<Rightarrow> nat" where
  "seenBefore ids x = card (set (takeWhile (\<lambda>y. y \<noteq> x) ids))"

definition colorsKnown :: "colorState \<Rightarrow> string list \<Rightarrow> bool" where
  "colorsKnown st p =
     (projectColors st = (\<lambda>x. if x \<in> set p
          then Some (availableColors ! (seenBefore p x mod length availableColors)) else None)
      \<and> colorIndex st = card (set p))"

section \<open>Intervals and row packing\<close>

text \<open>
  The bars of the timeline are the objects \<^verbatim>\<open>{name, startDate, endDate}\<close> built by
  \<^verbatim>\<open>getCustomerData\<close> / \<^verbatim>\<open>getMilestoneData\<close> and the project objects built by
  \<^verbatim>\<open>updatePeopleTimeline\<close>. Both dates of such an object are valid dates at local
  midnight, hence day numbers. Only the fields that packing reads are kept, with the
  label of the bar.
\<close>

record interval =
  name :: string
  startDate :: int
  endDate :: int

text \<open>
  The test of the inner loop,
  \<^verbatim>\<open>customer.startDate <= existingCustomer.endDate && customer.endDate >= existingCustomer.startDate\<close>.
\<close>

definition overlaps :: "interval \<Rightarrow> interval \<Rightarrow> bool" where
  "overlaps customer existingCustomer =
     (startDate customer \<le> endDate existingCustomer \<and> endDate customer \<ge> startDate existingCustomer)"

text \<open>
  The loop over \<^verbatim>\<open>j\<close>: \<^verbatim>\<open>canPlaceInRow\<close> starts as true and the loop leaves with
  false at the first member of the row that overlaps.
\<close>

fun canPlaceInRow :: "interval \<Rightarrow> interval list \<Rightarrow> bool" where
  "canPlaceInRow customer [] = True"
| "canPlaceInRow customer (existingCustomer # rest) =
     (if overlaps customer existingCustomer then False else canPlaceInRow customer rest)"

text \<open>
  The body of \<^verbatim>\<open>customerData.forEach\<close>: the loop over \<^verbatim>\<open>i\<close> pushes the customer on
  the first row that can take it and leaves; when no row took it
  (\<^verbatim>\<open>!placed\<close>), a new row \<^verbatim>\<open>[customer]\<close> is pushed at the end.
\<close>

fun placeInRows :: "interval \<Rightarrow> interval list list \<Rightarrow> interval list list" where
  "placeInRows customer [] = [[customer]]"
| "placeInRows customer (currentRowCustomers # rest) =
     (if canPlaceInRow customer currentRowCustomers
      then (currentRowCustomers @ [customer]) # rest
      else currentRowCustomers # placeInRows customer rest)"

text \<open>
  \<^verbatim>\<open>customerData.sort((a, b) => a.startDate.getTime() - b.startDate.getTime())\<close>:
  \<^verbatim>\<open>Array.prototype.sort\<close> is a stable sort (ECMAScript 2019; the source, with its
  arrow functions and template literals, needs such an engine), here on the key
  \<^verbatim>\<open>startDate\<close>; \<^const>\<open>sort_key\<close> is the stable insertion sort of the library.
  The sort works in place: the caller's array holds the sorted list afterwards.
\<close>

definition sortByStart :: "interval list \<Rightarrow> interval list" where
  "sortByStart customerData = sort_key startDate customerData"

definition packRows :: "interval list \<Rightarrow> interval list list" where
  "packRows customerData = foldl (\<lambda>packedCustomerRows customer. placeInRows customer packedCustomerRows) [] customerData"

text \<open>
  The packing part of \<^verbatim>\<open>populateCustomerRows\<close> (and, with other names, of the
  \<^verbatim>\<open>sortedPeople.forEach\<close> body of \<^verbatim>\<open>updatePeopleTimeline\<close>): the state of the
  caller's array after the call, and the packed rows. An empty array returns at once.
\<close>

definition populateCustomerRows_pack :: "interval list \<Rightarrow> interval list \<times> interval list list" where
  "populateCustomerRows_pack customerData =
     (if length customerData = 0 then (customerData, [])
      else (let sorted = sortByStart customerData in (sorted, packRows sorted)))"

definition pack :: "interval list \<Rightarrow> interval list list" where
  "pack customerData = snd (populateCustomerRows_pack customerData)"

text \<open>The words of the specification, for comparison with the code.\<close>

definition fits :: "interval \<Rightarrow> interval list \<Rightarrow> bool" where
  "fits x row = list_all (\<lambda>member. \<not> (startDate x \<le> endDate member \<and> endDate x \<ge> startDate member)) row"

text \<open>
  ``Scan existing rows in creation order; place it in the first row whose every
  existing member is non-overlapping with it; if no row qualifies, open a new row.''
\<close>

definition spec_place :: "interval list list \<Rightarrow> interval \<Rightarrow> interval list list" where
  "spec_place rows x =
     (case dropWhile (\<lambda>row. \<not> fits x row) rows of
        [] \<Rightarrow> rows @ [[x]]
      | row # later \<Rightarrow> takeWhile (\<lambda>row. \<not> fits x row) rows @ (row @ [x]) # later)"

definition spec_pack :: "interval list \<Rightarrow> interval list list" where
  "spec_pack xs = foldl spec_place [] (sort_key startDate xs)"

text \<open>The intervals of a list that are active on day \<open>t\<close>, and their number.\<close>

definition active :: "int \<Rightarrow> interval \<Rightarrow> bool" where
  "active t x = (startDate x \<le> t \<and> t \<le> endDate x)"

definition overlap_at :: "interval list \<Rightarrow> int \<Rightarrow> nat" where
  "overlap_at xs t = length (filter (active t) xs)"

text \<open>
  The largest number of intervals active on one day. Only the start days are tried;
  the theorem on row minimality shows that no other day has more.
\<close>

definition max_overlap :: "interval list \<Rightarrow> nat" where
  "max_overlap xs = fold max (map (\<lambda>x. overlap_at xs (startDate x)) xs) 0"

definition separate :: "interval \<Rightarrow> interval \<Rightarrow> bool" where
  "separate A B = (endDate A < startDate B \<or> endDate B < startDate A)"

text \<open>Every row holds an interval that is active on day \<open>t\<close>.\<close>

definition all_active :: "int \<Rightarrow> interval list list \<Rightarrow> bool" where
  "all_active t rows = list_all (\<lambda>r. \<exists>m\<in>set r. active t m) rows"

chapter \<open>Proofs\<close>

section \<open>The calendar\<close>

text \<open>
  The year of a date is the year the ECMAScript specification defines: the largest
  year that starts on or before the date.
\<close>

lemma div_pred:
  fixes y c :: int
  assumes "0 < c"
  shows "(y - 1) div c = y div c - (if y mod c = 0 then 1 else 0)"
proof (cases "y mod c = 0")
  case True
  have "y = c * (y div c) + y mod c" by simp
  with True have "y = c * (y div c)" by simp
  then have "y - 1 = c * (y div c - 1) + (c - 1)" by (simp add: right_diff_distrib)
  moreover from assms have "0 \<le> c - 1" "c - 1 < c" by simp_all
  ultimately have "(y - 1) div c = y div c - 1"
    by (rule int_div_pos_eq)
  with True show ?thesis by simp
next
  case False
  have "0 \<le> y mod c" using assms by simp
  with False have pos: "0 \<le> y mod c - 1" by simp
  have "y mod c < c" using assms by simp
  then have lt: "y mod c - 1 < c" by simp
  have "y - 1 = c * (y div c) + (y mod c - 1)" by simp
  then have "(y - 1) div c = y div c"
    using pos lt by (rule int_div_pos_eq)
  with False show ?thesis by simp
qed

lemma DayFromYear_step: "DayFromYear (y + 1) = DayFromYear y + DaysInYear y"
proof -
  have m4: "(y - 1968) mod 4 = y mod 4" using mod_mult_self2 [of y 4 "- 492"] by simp
  have m100: "(y - 1900) mod 100 = y mod 100" using mod_mult_self2 [of y 100 "- 19"] by simp
  have m400: "(y - 1600) mod 400 = y mod 400" using mod_mult_self2 [of y 400 "- 4"] by simp
  have d4: "(y - 1969) div 4 = (y - 1968) div 4 - (if y mod 4 = 0 then 1 else 0)"
    using div_pred [of 4 "y - 1968"] by (simp add: m4)
  have d100: "(y - 1901) div 100 = (y - 1900) div 100 - (if y mod 100 = 0 then 1 else 0)"
    using div_pred [of 100 "y - 1900"] by (simp add: m100)
  have d400: "(y - 1601) div 400 = (y - 1600) div 400 - (if y mod 400 = 0 then 1 else 0)"
    using div_pred [of 400 "y - 1600"] by (simp add: m400)
  have imp: "y mod 100 = 0 \<Longrightarrow> y mod 4 = 0" "y mod 400 = 0 \<Longrightarrow> y mod 100 = 0"
    using mod_mod_cancel [of 4 100 y] mod_mod_cancel [of 100 400 y] by simp_all
  have "DayFromYear (y + 1)
      = 365 * (y - 1969) + (y - 1968) div 4 - (y - 1900) div 100 + (y - 1600) div 400"
    by (simp add: DayFromYear_def)
  with imp show ?thesis
    by (auto simp: DayFromYear_def DaysInYear_def d4 d100 d400)
qed

lemma DaysInYear_pos: "0 < DaysInYear y"
  by (simp add: DaysInYear_def)

lemma DayFromYear_strict_mono: "y < z \<Longrightarrow> DayFromYear y < DayFromYear z"
proof (induction z rule: int_gr_induct)
  case base
  show ?case using DaysInYear_pos [of y] by (simp add: DayFromYear_step)
next
  case (step z)
  then show ?case using DaysInYear_pos [of z] by (simp add: DayFromYear_step)
qed

lemma div_bounds:
  fixes x c :: int
  assumes "0 < c"
  shows "c * (x div c) \<le> x" and "x \<le> c * (x div c) + (c - 1)"
proof -
  have "x = c * (x div c) + x mod c" by simp
  moreover have "0 \<le> x mod c" "x mod c < c" using assms by simp_all
  ultimately show "c * (x div c) \<le> x" and "x \<le> c * (x div c) + (c - 1)" by linarith+
qed

lemma DayFromYear_near:
  "146097 * (y - 1970) - 506 \<le> 400 * DayFromYear y"
  "400 * DayFromYear y \<le> 146097 * (y - 1970) + 589"
proof -
  define q4 where "q4 = (y - 1969) div 4"
  define q100 where "q100 = (y - 1901) div 100"
  define q400 where "q400 = (y - 1601) div 400"
  have b4: "4 * q4 \<le> y - 1969" "y - 1969 \<le> 4 * q4 + 3"
    unfolding q4_def using div_bounds [of 4 "y - 1969"] by simp_all
  have b100: "100 * q100 \<le> y - 1901" "y - 1901 \<le> 100 * q100 + 99"
    unfolding q100_def using div_bounds [of 100 "y - 1901"] by simp_all
  have b400: "400 * q400 \<le> y - 1601" "y - 1601 \<le> 400 * q400 + 399"
    unfolding q400_def using div_bounds [of 400 "y - 1601"] by simp_all
  have eq: "DayFromYear y = 365 * (y - 1970) + q4 - q100 + q400"
    by (simp add: DayFromYear_def q4_def q100_def q400_def)
  from b4 b100 b400 have lo: "100 * (y - 1969) - 300 \<le> 400 * q4" "400 * q100 \<le> 4 * (y - 1901)"
    "(y - 1601) - 399 \<le> 400 * q400" by simp_all
  from b4 b100 b400 have hi: "400 * q4 \<le> 100 * (y - 1969)" "4 * (y - 1901) - 396 \<le> 400 * q100"
    "400 * q400 \<le> y - 1601" by simp_all
  from lo show "146097 * (y - 1970) - 506 \<le> 400 * DayFromYear y"
    unfolding eq by simp
  from hi show "400 * DayFromYear y \<le> 146097 * (y - 1970) + 589"
    unfolding eq by simp
qed

lemma YearFromTime_correct:
  "DayFromYear (YearFromTime t) \<le> t \<and> t < DayFromYear (YearFromTime t + 1)"
proof -
  define a where "a = (400 * t) div 146097"
  have ba: "146097 * a \<le> 400 * t" "400 * t \<le> 146097 * a + 146096"
    unfolding a_def using div_bounds [of 146097 "400 * t"] by simp_all
  have Y: "YearFromTime t =
      (if t < DayFromYear (1970 + a) then 1970 + a - 1
       else if DayFromYear (1970 + a + 1) \<le> t then 1970 + a + 1 else 1970 + a)"
    by (simp add: YearFromTime_def a_def Let_def)
  show ?thesis
  proof (cases "t < DayFromYear (1970 + a)")
    case True
    from DayFromYear_near(2) [of "1970 + a - 1"] ba(1)
    have "400 * DayFromYear (1970 + a - 1) \<le> 400 * t" by simp
    then have "DayFromYear (1970 + a - 1) \<le> t" by simp
    with True show ?thesis by (simp add: Y)
  next
    case False
    show ?thesis
    proof (cases "DayFromYear (1970 + a + 1) \<le> t")
      case True
      from DayFromYear_near(1) [of "1970 + a + 1 + 1"] ba(2)
      have "400 * t < 400 * DayFromYear (1970 + a + 1 + 1)" by simp
      then have "t < DayFromYear (1970 + a + 1 + 1)" by simp
      with True False show ?thesis by (simp add: Y)
    next
      case no: False
      with False show ?thesis by (simp add: Y)
    qed
  qed
qed

lemma YearFromTime_largest: "DayFromYear y \<le> t \<Longrightarrow> y \<le> YearFromTime t"
proof (rule ccontr)
  assume le: "DayFromYear y \<le> t" and "\<not> y \<le> YearFromTime t"
  then have "YearFromTime t + 1 \<le> y" by simp
  then have "DayFromYear (YearFromTime t + 1) \<le> DayFromYear y"
    using DayFromYear_strict_mono [of "YearFromTime t + 1" y] by (cases "YearFromTime t + 1 = y") auto
  with le YearFromTime_correct [of t] show False by simp
qed

lemma DayWithinYear_range:
  "0 \<le> DayWithinYear t \<and> DayWithinYear t < DaysInYear (YearFromTime t)"
  using YearFromTime_correct [of t] DayFromYear_step [of "YearFromTime t"]
  by (simp add: DayWithinYear_def)

lemma DateFromTime_range: "1 \<le> DateFromTime t \<and> DateFromTime t \<le> 31"
proof -
  have "DaysInYear (YearFromTime t) = 365 \<or> DaysInYear (YearFromTime t) = 366"
    by (simp add: DaysInYear_def)
  with DayWithinYear_range [of t] show ?thesis
    by (auto simp: DateFromTime_def MonthFromTime_def monthOffset_def InLeapYear_def Let_def)
qed

text \<open>The year, month and day of a date give the date back.\<close>

lemma MakeDay_roundtrip: "MakeDay (YearFromTime t) (MonthFromTime t) (DateFromTime t) = t"
  by (simp add: MakeDay_own_month)

text \<open>
  Some dates: 1970-01-01 is day 0, a Thursday; 2024-02-29; 2025-03-20, a Thursday; and
  the constructor reads the year 50 as 1950.
\<close>

lemma calendar_examples:
  "newDate 1970 0 1 = 0" "getDay 0 = 4"
  "newDate 2024 1 29 = 19782" "getFullYear 19782 = 2024" "getMonth 19782 = 1" "getDate 19782 = 29"
  "newDate 2025 2 20 = 20167" "getDay 20167 = 4"
  "newDate 50 5 15 = newDate 1950 5 15"
  by (simp_all add: newDate_def MakeDay_def DayFromYear_def DaysInYear_def monthOffset_def
      getDay_def WeekDay_def getFullYear_def getMonth_def getDate_def YearFromTime_def
      MonthFromTime_def DateFromTime_def DayWithinYear_def InLeapYear_def)

lemma setDate_same_month:
  "YearFromTime e = YearFromTime s \<Longrightarrow> MonthFromTime e = MonthFromTime s \<Longrightarrow>
   setDate e (getDate s) = s"
  using MakeDay_own_month [of s "DateFromTime s"] by (simp add: setDate_def getDate_def)





lemma normalizeEndDate_setDate_same_month:
  "endD < startD \<Longrightarrow> getFullYear endD = getFullYear startD \<Longrightarrow>
   getMonth endD = getMonth startD \<Longrightarrow>
   normalizeEndDate_setDate startD endD = startD"
  by (simp add: normalizeEndDate_setDate_def getFullYear_def getMonth_def setDate_same_month)

text \<open>
  Claim C4 (end before start). The claim is that an end date before the start date is
  replaced by the start date, whatever the months and years. The step with
  \<^verbatim>\<open>setDate\<close> only copies the day of the month: for the start 2025-03-20 and the end
  2025-01-15 it leaves the end 2025-01-20, still before the start, where the step of
  \<^verbatim>\<open>updateProjectTimelines\<close> gives the start date. (Months count from 0 in
  \<open>newDate\<close>.) When both dates lie in one month of one year the step with
  \<^verbatim>\<open>setDate\<close> gives the start date: lemma \<open>normalizeEndDate_setDate_same_month\<close>.
\<close>

theorem end_before_start_other_month:
  "newDate 2025 0 15 < newDate 2025 2 20
   \<and> normalizeEndDate_setDate (newDate 2025 2 20) (newDate 2025 0 15) = newDate 2025 0 20
   \<and> newDate 2025 0 20 < newDate 2025 2 20
   \<and> normalizeEndDate_copy (newDate 2025 2 20) (newDate 2025 0 15) = newDate 2025 2 20"
proof -
  have v: "newDate 2025 0 15 = 20103" "newDate 2025 2 20 = 20167" "newDate 2025 0 20 = 20108"
    by (simp_all add: newDate_def MakeDay_def DayFromYear_def DaysInYear_def monthOffset_def)
  have y: "YearFromTime 20103 = 2025" "YearFromTime 20167 = 2025"
    by (simp_all add: YearFromTime_def DayFromYear_def)
  have m: "MonthFromTime 20103 = 0" "MonthFromTime 20167 = 2"
    by (simp_all add: MonthFromTime_def DayWithinYear_def InLeapYear_def y DayFromYear_def DaysInYear_def)
  have d: "getDate 20167 = 20"
    by (simp add: getDate_def DateFromTime_def DayWithinYear_def InLeapYear_def y m DayFromYear_def
        DaysInYear_def monthOffset_def)
  have "setDate 20103 20 = 20108"
    by (simp add: setDate_def y m MakeDay_def DayFromYear_def DaysInYear_def monthOffset_def)
  then show ?thesis
    by (simp add: v d normalizeEndDate_setDate_def normalizeEndDate_copy_def)
qed

section \<open>The column index\<close>

lemma update_fresh: "k \<notin> fst ` set al \<Longrightarrow> AList.update k v al = al @ [(k, v)]"
  by (induction al) auto

lemma dayWalk_done: "\<not> cur \<le> lst \<Longrightarrow> dayWalk w lst cur m col = (m, col)"
  by (subst dayWalk.simps) simp

lemma dayWalk_take:
  "cur \<le> lst \<Longrightarrow> indexedDay w cur \<Longrightarrow>
   dayWalk w lst cur m col = dayWalk w lst (cur + 1) (AList.update cur col m) (col + 1)"
  by (subst dayWalk.simps) (simp add: indexedDay_def setDate_getDate Let_def)

lemma dayWalk_skip:
  "cur \<le> lst \<Longrightarrow> \<not> indexedDay w cur \<Longrightarrow>
   dayWalk w lst cur m col = dayWalk w lst (cur + 1) m col"
  by (subst dayWalk.simps) (auto simp: indexedDay_def setDate_getDate Let_def)

lemma upto_Suc_cols: "[col..col + int n] = col # [col + 1..col + int n]"
  by (simp add: upto_rec1)

lemma dayWalk_eq:
  "\<forall>k\<in>fst ` set m. k < cur \<Longrightarrow>
   dayWalk w lst cur m col =
     (m @ zip (filter (indexedDay w) [cur..lst])
              [col..col + int (length (filter (indexedDay w) [cur..lst])) - 1],
      col + int (length (filter (indexedDay w) [cur..lst])))"
proof (induction "nat (lst + 1 - cur)" arbitrary: cur m col)
  case 0
  then have "\<not> cur \<le> lst" by simp
  then show ?case by (simp add: dayWalk_done)
next
  case (Suc n)
  then have le: "cur \<le> lst" and n: "n = nat (lst + 1 - (cur + 1))" by simp_all
  from le have upto: "[cur..lst] = cur # [cur + 1..lst]" by (simp add: upto_rec1)
  show ?case
  proof (cases "indexedDay w cur")
    case True
    have fresh: "cur \<notin> fst ` set m" using Suc.prems by auto
    then have upd: "AList.update cur col m = m @ [(cur, col)]" by (rule update_fresh)
    have "\<forall>k\<in>fst ` set (m @ [(cur, col)]). k < cur + 1"
      using Suc.prems by auto
    from Suc.hyps(1) [OF n this, of "col + 1"] le True show ?thesis
      by (simp add: dayWalk_take upd upto upto_Suc_cols)
  next
    case False
    have "\<forall>k\<in>fst ` set m. k < cur + 1"
      using Suc.prems by auto
    from Suc.hyps(1) [OF n this, of col] le False show ?thesis
      by (simp add: dayWalk_skip upto)
  qed
qed

lemma length_upto_cols: "length [col..col + int n - 1] = n"
  by simp

lemma buildColumnIndex_eq:
  "buildColumnIndex w mn mx f =
     (zip (filter (indexedDay w) [getStartOfWeek mn..getEndOfWeek w mx])
          [f + 1..f + int (length (filter (indexedDay w) [getStartOfWeek mn..getEndOfWeek w mx]))],
      f + 1 + int (length (filter (indexedDay w) [getStartOfWeek mn..getEndOfWeek w mx])))"
  using dayWalk_eq [of "[]" "getStartOfWeek mn" w "getEndOfWeek w mx" "f + 1"]
  by (simp add: buildColumnIndex_def Let_def)









section \<open>Term header segments\<close>










lemma length_buildColumnIndex:
  "length (fst (buildColumnIndex w mn mx f))
     = length (filter (indexedDay w) [getStartOfWeek mn..getEndOfWeek w mx])"
  by (simp add: buildColumnIndex_eq)



















section \<open>Bar columns\<close>






section \<open>Packing\<close>

subsection \<open>Facts about packing\<close>

lemma canPlaceInRow_iff: "canPlaceInRow c r = list_all (\<lambda>e. \<not> overlaps c e) r"
  by (induction r) auto

lemma canPlaceInRow_fits: "canPlaceInRow c r = fits c r"
  by (simp add: canPlaceInRow_iff fits_def overlaps_def)

lemma placeInRows_spec: "placeInRows c rows = spec_place rows c"
proof (induction rows)
  case Nil
  show ?case by (simp add: spec_place_def)
next
  case (Cons r rows)
  show ?case
  proof (cases "fits c r")
    case True
    then show ?thesis by (simp add: spec_place_def canPlaceInRow_fits)
  next
    case False
    then have "spec_place (r # rows) c = r # spec_place rows c"
      by (cases "dropWhile (\<lambda>row. \<not> fits c row) rows") (simp_all add: spec_place_def del: dropWhile_eq_Nil_conv)
    with False Cons show ?thesis
      by (simp add: canPlaceInRow_fits)
  qed
qed

lemma packRows_spec: "foldl (\<lambda>rows c. placeInRows c rows) rows xs = foldl spec_place rows xs"
  by (induction xs arbitrary: rows) (simp_all add: placeInRows_spec)

lemma pack_eq: "pack xs = packRows (sortByStart xs)"
  by (cases xs) (simp_all add: pack_def populateCustomerRows_pack_def packRows_def sortByStart_def Let_def)

lemma not_overlaps_separate: "(\<not> overlaps c e) = separate e c"
  by (auto simp: overlaps_def separate_def)

lemma canPlaceInRow_separate: "canPlaceInRow c r = (\<forall>e\<in>set r. separate e c)"
  by (simp add: canPlaceInRow_iff list_all_iff not_overlaps_separate)

lemma mset_concat_placeInRows:
  "mset (concat (placeInRows c rows)) = mset (concat rows) + {#c#}"
  by (induction rows) auto

lemma placeInRows_no_empty_row: "[] \<notin> set rows \<Longrightarrow> [] \<notin> set (placeInRows c rows)"
  by (induction rows) auto

lemma placeInRows_separate:
  "list_all (sorted_wrt separate) rows \<Longrightarrow> list_all (sorted_wrt separate) (placeInRows c rows)"
  by (induction rows) (auto simp: sorted_wrt_append canPlaceInRow_separate)

lemma foldl_place_mset:
  "mset (concat (foldl (\<lambda>rows c. placeInRows c rows) rows xs)) = mset (concat rows) + mset xs"
  by (induction xs arbitrary: rows) (simp_all add: mset_concat_placeInRows)

lemma foldl_place_no_empty_row:
  "[] \<notin> set rows \<Longrightarrow> [] \<notin> set (foldl (\<lambda>rows c. placeInRows c rows) rows xs)"
  by (induction xs arbitrary: rows) (simp_all add: placeInRows_no_empty_row)

lemma foldl_place_separate:
  "list_all (sorted_wrt separate) rows \<Longrightarrow>
   list_all (sorted_wrt separate) (foldl (\<lambda>rows c. placeInRows c rows) rows xs)"
  by (induction xs arbitrary: rows) (simp_all add: placeInRows_separate)

lemma mset_concat_pack: "mset (concat (pack xs)) = mset xs"
  by (simp add: pack_eq packRows_def foldl_place_mset sortByStart_def)

lemma pack_no_empty_row: "[] \<notin> set (pack xs)"
  by (simp add: pack_eq packRows_def foldl_place_no_empty_row)

lemma pack_separate: "list_all (sorted_wrt separate) (pack xs)"
  by (simp add: pack_eq packRows_def foldl_place_separate)

lemma separate_sym: "separate a b = separate b a"
  by (auto simp: separate_def)

lemma sorted_wrt_separate_nth:
  assumes "sorted_wrt separate r" "i < length r" "j < length r" "i \<noteq> j"
  shows "separate (r ! i) (r ! j)"
proof (cases "i < j")
  case True
  with assms show ?thesis by (simp add: sorted_wrt_iff_nth_less)
next
  case False
  with assms have "j < i" by simp
  with assms have "separate (r ! j) (r ! i)" by (simp add: sorted_wrt_iff_nth_less)
  then show ?thesis by (simp add: separate_sym)
qed

text \<open>No day has more active intervals than there are rows.\<close>

lemma active_both_overlap: "active t a \<Longrightarrow> active t b \<Longrightarrow> \<not> separate a b"
  by (auto simp: active_def separate_def)

lemma separate_row_at_most_one:
  "sorted_wrt separate r \<Longrightarrow> length (filter (active t) r) \<le> 1"
proof (induction r)
  case Nil
  then show ?case by simp
next
  case (Cons a r)
  show ?case
  proof (cases "active t a")
    case True
    with Cons.prems have "filter (active t) r = []"
      by (auto simp: filter_empty_conv dest: active_both_overlap)
    with True show ?thesis by simp
  next
    case False
    with Cons show ?thesis by simp
  qed
qed

lemma overlap_at_concat_le:
  "list_all (sorted_wrt separate) rows \<Longrightarrow> overlap_at (concat rows) t \<le> length rows"
proof (induction rows)
  case Nil
  then show ?case by (simp add: overlap_at_def)
next
  case (Cons r rows)
  from Cons.prems have "sorted_wrt separate r" by simp
  then have "length (filter (active t) r) \<le> 1" by (rule separate_row_at_most_one)
  moreover from Cons have "overlap_at (concat rows) t \<le> length rows" by simp
  ultimately show ?case by (simp add: overlap_at_def)
qed

lemma overlap_at_mset: "mset xs = mset ys \<Longrightarrow> overlap_at xs t = overlap_at ys t"
  unfolding overlap_at_def by (metis mset_filter size_mset)

lemma overlap_at_le_pack: "overlap_at xs t \<le> length (pack xs)"
proof -
  have "overlap_at xs t = overlap_at (concat (pack xs)) t"
    by (rule overlap_at_mset) (simp add: mset_concat_pack)
  also have "\<dots> \<le> length (pack xs)"
    by (rule overlap_at_concat_le) (simp add: pack_separate)
  finally show ?thesis .
qed

text \<open>
  When a row is opened by an interval, every older row holds an interval that is active
  on the start day of the new one.
\<close>

lemma set_concat_placeInRows:
  "set (concat (placeInRows c rows)) = insert c (set (concat rows))"
  using mset_concat_placeInRows [of c rows, THEN arg_cong, of set_mset] by simp

lemma placeInRows_taken:
  "\<exists>r\<in>set rows. canPlaceInRow c r \<Longrightarrow> all_active t rows \<Longrightarrow> all_active t (placeInRows c rows)"
  by (induction rows) (auto simp: all_active_def)

lemma placeInRows_new:
  "\<forall>r\<in>set rows. \<not> canPlaceInRow c r \<Longrightarrow> placeInRows c rows = rows @ [[c]]"
  by (induction rows) auto

lemma blocked_row_active:
  assumes "\<not> canPlaceInRow c r" and "\<forall>m\<in>set r. startDate m \<le> startDate c"
  shows "\<exists>m\<in>set r. active (startDate c) m"
proof -
  from assms(1) obtain e where e: "e \<in> set r" "overlaps c e"
    by (auto simp: canPlaceInRow_iff list_all_iff)
  with assms(2) have "active (startDate c) e"
    by (simp add: active_def overlaps_def)
  with e show ?thesis by blast
qed

lemma placeInRows_all_active:
  assumes rows: "rows = [] \<or> (\<exists>x\<in>set (concat rows). all_active (startDate x) rows)"
    and le: "\<forall>m\<in>set (concat rows). startDate m \<le> startDate c"
    and norm: "startDate c \<le> endDate c"
  shows "\<exists>x\<in>set (concat (placeInRows c rows)). all_active (startDate x) (placeInRows c rows)"
proof (cases "\<exists>r\<in>set rows. canPlaceInRow c r")
  case True
  then have "rows \<noteq> []" by auto
  with rows obtain x where "x \<in> set (concat rows)" "all_active (startDate x) rows" by blast
  with True show ?thesis
    by (auto simp: set_concat_placeInRows simp del: set_concat intro: placeInRows_taken)
next
  case False
  then have new: "placeInRows c rows = rows @ [[c]]" by (simp add: placeInRows_new)
  have "all_active (startDate c) rows"
    unfolding all_active_def list_all_iff
  proof
    fix r assume r: "r \<in> set rows"
    with False have "\<not> canPlaceInRow c r" by blast
    moreover from r le have "\<forall>m\<in>set r. startDate m \<le> startDate c" by auto
    ultimately show "\<exists>m\<in>set r. active (startDate c) m" by (rule blocked_row_active)
  qed
  moreover from norm have "active (startDate c) c" by (simp add: active_def)
  ultimately have "all_active (startDate c) (rows @ [[c]])" by (simp add: all_active_def)
  with new show ?thesis by auto
qed

lemma foldl_place_all_active:
  assumes "sorted (map startDate ys)"
    and "\<forall>y\<in>set ys. startDate y \<le> endDate y"
    and "\<forall>m\<in>set (concat rows). \<forall>y\<in>set ys. startDate m \<le> startDate y"
    and "rows = [] \<or> (\<exists>x\<in>set (concat rows). all_active (startDate x) rows)"
  shows "foldl (\<lambda>rows c. placeInRows c rows) rows ys = [] \<or>
         (\<exists>x\<in>set (concat (foldl (\<lambda>rows c. placeInRows c rows) rows ys)).
            all_active (startDate x) (foldl (\<lambda>rows c. placeInRows c rows) rows ys))"
  using assms
proof (induction ys arbitrary: rows)
  case Nil
  then show ?case by simp
next
  case (Cons y ys)
  have "\<exists>x\<in>set (concat (placeInRows y rows)). all_active (startDate x) (placeInRows y rows)"
    using Cons.prems by (intro placeInRows_all_active) auto
  moreover have "\<forall>m\<in>set (concat (placeInRows y rows)). \<forall>z\<in>set ys. startDate m \<le> startDate z"
    using Cons.prems by (auto simp: set_concat_placeInRows simp del: set_concat)
  moreover have "sorted (map startDate ys)" "\<forall>y\<in>set ys. startDate y \<le> endDate y"
    using Cons.prems by auto
  ultimately show ?case
    using Cons.IH [of "placeInRows y rows"] by simp
qed

lemma all_active_count: "all_active t rows \<Longrightarrow> length rows \<le> overlap_at (concat rows) t"
proof (induction rows)
  case Nil
  then show ?case by simp
next
  case (Cons r rows)
  then obtain m where "m \<in> set r" "active t m" by (auto simp: all_active_def)
  then have "filter (active t) r \<noteq> []" by (auto simp: filter_empty_conv)
  then have "1 \<le> length (filter (active t) r)" by (cases "filter (active t) r") simp_all
  moreover from Cons have "length rows \<le> overlap_at (concat rows) t" by (simp add: all_active_def)
  ultimately show ?case by (simp add: overlap_at_def)
qed

lemma pack_reaches_overlap:
  assumes "\<forall>x\<in>set xs. startDate x \<le> endDate x" and "xs \<noteq> []"
  shows "\<exists>x\<in>set xs. overlap_at xs (startDate x) = length (pack xs)"
proof -
  let ?ys = "sortByStart xs"
  have "pack xs = [] \<or> (\<exists>x\<in>set (concat (pack xs)). all_active (startDate x) (pack xs))"
    unfolding pack_eq packRows_def
    using assms(1) by (intro foldl_place_all_active) (simp_all add: sortByStart_def)
  moreover have cc: "mset (concat (pack xs)) = mset xs" by (rule mset_concat_pack)
  then have "set (concat (pack xs)) = set xs" by (metis set_mset_mset)
  moreover from cc assms(2) have "pack xs \<noteq> []" by auto
  ultimately obtain x where x: "x \<in> set xs" "all_active (startDate x) (pack xs)" by blast
  then have "length (pack xs) \<le> overlap_at (concat (pack xs)) (startDate x)"
    by (simp add: all_active_count)
  also have "\<dots> = overlap_at xs (startDate x)" using cc by (rule overlap_at_mset)
  finally have "length (pack xs) \<le> overlap_at xs (startDate x)" .
  with overlap_at_le_pack [of xs "startDate x"] x(1) show ?thesis by auto
qed

lemma max_overlap_Max: "max_overlap xs = Max (insert 0 ((\<lambda>x. overlap_at xs (startDate x)) ` set xs))"
  unfolding max_overlap_def using Max.set_eq_fold [of 0 "map (\<lambda>x. overlap_at xs (startDate x)) xs"]
  by simp

lemma pack_max_overlap:
  assumes "\<forall>x\<in>set xs. startDate x \<le> endDate x"
  shows "length (pack xs) = max_overlap xs"
proof -
  have "Max (insert 0 ((\<lambda>x. overlap_at xs (startDate x)) ` set xs)) = length (pack xs)"
  proof (rule Max_eqI)
    show "finite (insert 0 ((\<lambda>x. overlap_at xs (startDate x)) ` set xs))" by simp
    show "\<And>y. y \<in> insert 0 ((\<lambda>x. overlap_at xs (startDate x)) ` set xs) \<Longrightarrow> y \<le> length (pack xs)"
      by (auto simp: overlap_at_le_pack)
    show "length (pack xs) \<in> insert 0 ((\<lambda>x. overlap_at xs (startDate x)) ` set xs)"
    proof (cases "xs = []")
      case True
      then show ?thesis by (simp add: pack_def populateCustomerRows_pack_def)
    next
      case False
      with assms obtain x where "x \<in> set xs" "overlap_at xs (startDate x) = length (pack xs)"
        using pack_reaches_overlap by blast
      then show ?thesis by force
    qed
  qed
  then show ?thesis by (simp add: max_overlap_Max)
qed

lemma count_list_concat:
  "count_list (concat rows) x = sum_list (map (\<lambda>row. count_list row x) rows)"
  by (induction rows) simp_all

subsection \<open>The claims on packing\<close>

text \<open>
  Claim C1 (row minimality). For every list of intervals with \<open>startDate \<le> endDate\<close>,
  \<open>pack\<close> returns exactly as many rows as the largest number of intervals of the
  list that are active on one day: no day has more active intervals than there are
  rows, and for a non-empty list some day has exactly that many. For the input
  [1,5], [3,7], [6,10] it returns two rows, [1,5] with [6,10], and [3,7] alone.
\<close>

theorem pack_row_minimality:
  assumes "\<forall>x\<in>set xs. startDate x \<le> endDate x"
  shows "length (pack xs) = max_overlap xs
       \<and> (\<forall>t. overlap_at xs t \<le> length (pack xs))
       \<and> (xs \<noteq> [] \<longrightarrow> (\<exists>t. overlap_at xs t = length (pack xs)))
       \<and> pack [\<lparr>name = ''A'', startDate = 1, endDate = 5\<rparr>,
                \<lparr>name = ''B'', startDate = 3, endDate = 7\<rparr>,
                \<lparr>name = ''C'', startDate = 6, endDate = 10\<rparr>]
          = [[\<lparr>name = ''A'', startDate = 1, endDate = 5\<rparr>, \<lparr>name = ''C'', startDate = 6, endDate = 10\<rparr>],
             [\<lparr>name = ''B'', startDate = 3, endDate = 7\<rparr>]]"
proof (intro conjI)
  show "length (pack xs) = max_overlap xs"
    using assms by (rule pack_max_overlap)
  show "\<forall>t. overlap_at xs t \<le> length (pack xs)"
    by (simp add: overlap_at_le_pack)
  show "xs \<noteq> [] \<longrightarrow> (\<exists>t. overlap_at xs t = length (pack xs))"
    using assms pack_reaches_overlap by blast
  show "pack [\<lparr>name = ''A'', startDate = 1, endDate = 5\<rparr>,
                \<lparr>name = ''B'', startDate = 3, endDate = 7\<rparr>,
                \<lparr>name = ''C'', startDate = 6, endDate = 10\<rparr>]
          = [[\<lparr>name = ''A'', startDate = 1, endDate = 5\<rparr>, \<lparr>name = ''C'', startDate = 6, endDate = 10\<rparr>],
             [\<lparr>name = ''B'', startDate = 3, endDate = 7\<rparr>]]"
    by (simp add: pack_def populateCustomerRows_pack_def sortByStart_def packRows_def overlaps_def)
qed

text \<open>The same three intervals in another input order: two rows, and two intervals on day 3.\<close>

theorem pack_row_minimality_witness:
  "length (pack [\<lparr>name = ''B'', startDate = 3, endDate = 7\<rparr>,
                 \<lparr>name = ''C'', startDate = 6, endDate = 10\<rparr>,
                 \<lparr>name = ''A'', startDate = 1, endDate = 5\<rparr>]) = 2
   \<and> max_overlap [\<lparr>name = ''B'', startDate = 3, endDate = 7\<rparr>,
                 \<lparr>name = ''C'', startDate = 6, endDate = 10\<rparr>,
                 \<lparr>name = ''A'', startDate = 1, endDate = 5\<rparr>] = 2"
  using pack_row_minimality [of "[\<lparr>name = ''B'', startDate = 3, endDate = 7\<rparr>,
                 \<lparr>name = ''C'', startDate = 6, endDate = 10\<rparr>,
                 \<lparr>name = ''A'', startDate = 1, endDate = 5\<rparr>]"]
  by (simp add: max_overlap_def overlap_at_def active_def)

text \<open>
  Claim C2 (no-overlap invariant). For every input list and every row of the output of
  \<open>pack\<close>, two intervals A, B at different positions of the row satisfy
  \<open>A.end < B.start \<or> B.end < A.start\<close>, which is the negation of the closed-range test
  \<open>overlaps\<close> of the code: intervals that share a single day are never in one row.
\<close>

theorem pack_no_overlap:
  "\<forall>row\<in>set (pack xs). \<forall>i<length row. \<forall>j<length row. i \<noteq> j \<longrightarrow>
     (endDate (row ! i) < startDate (row ! j) \<or> endDate (row ! j) < startDate (row ! i))
     \<and> \<not> overlaps (row ! i) (row ! j)"
proof (intro ballI allI impI)
  fix row i j
  assume "row \<in> set (pack xs)" "i < length row" "j < length row" "i \<noteq> j"
  moreover have "list_all (sorted_wrt separate) (pack xs)" by (rule pack_separate)
  ultimately have "separate (row ! i) (row ! j)"
    by (auto simp: list_all_iff intro: sorted_wrt_separate_nth)
  then show "(endDate (row ! i) < startDate (row ! j) \<or> endDate (row ! j) < startDate (row ! i))
     \<and> \<not> overlaps (row ! i) (row ! j)"
    by (auto simp: separate_def overlaps_def)
qed

text \<open>
  The row of [1,5] and [6,10]; an interval that starts on day 5 overlaps [1,5].
\<close>

theorem pack_no_overlap_witness:
  "[\<lparr>name = ''A'', startDate = 1, endDate = 5\<rparr>, \<lparr>name = ''C'', startDate = 6, endDate = 10\<rparr>]
     \<in> set (pack [\<lparr>name = ''A'', startDate = 1, endDate = 5\<rparr>,
                \<lparr>name = ''B'', startDate = 3, endDate = 7\<rparr>,
                \<lparr>name = ''C'', startDate = 6, endDate = 10\<rparr>])
   \<and> \<not> overlaps \<lparr>name = ''A'', startDate = 1, endDate = 5\<rparr> \<lparr>name = ''C'', startDate = 6, endDate = 10\<rparr>
   \<and> overlaps \<lparr>name = ''A'', startDate = 1, endDate = 5\<rparr> \<lparr>name = ''B'', startDate = 5, endDate = 7\<rparr>"
proof -
  let ?A = "\<lparr>name = ''A'', startDate = 1, endDate = 5\<rparr>"
  let ?C = "\<lparr>name = ''C'', startDate = 6, endDate = 10\<rparr>"
  let ?xs = "[?A, \<lparr>name = ''B'', startDate = 3, endDate = 7\<rparr>, ?C]"
  have row: "[?A, ?C] \<in> set (pack ?xs)"
    by (simp add: pack_def populateCustomerRows_pack_def sortByStart_def packRows_def overlaps_def)
  from pack_no_overlap [of ?xs, rule_format, OF row, of 0 1]
  have "\<not> overlaps ?A ?C" by simp
  with row show ?thesis by (simp add: overlaps_def)
qed

text \<open>
  Claim C3 (first fit). \<open>pack\<close> is the procedure of the specification: the intervals
  are taken in ascending order of start, ties in input order (the sorted list is
  ordered by start, a permutation of the input, and for every start day its intervals
  keep their input order); each interval goes to the first row, in creation order, whose
  every member does not overlap it, and to a new last row when there is none; the
  empty input gives no row.
\<close>

theorem pack_first_fit:
  "pack xs = spec_pack xs
   \<and> pack xs = foldl (\<lambda>rows x. placeInRows x rows) [] (sortByStart xs)
   \<and> sorted (map startDate (sortByStart xs))
   \<and> mset (sortByStart xs) = mset xs
   \<and> (\<forall>k. filter (\<lambda>x. startDate x = k) (sortByStart xs) = filter (\<lambda>x. startDate x = k) xs)
   \<and> placeInRows x rows = spec_place rows x
   \<and> pack [] = []"
  by (simp add: pack_eq packRows_def packRows_spec spec_pack_def sortByStart_def sort_key_stable
      placeInRows_spec)

text \<open>
  Claim C10 (partition). The rows of \<open>pack\<close> hold the intervals of the input, each as
  often as the input does: the rows together are a permutation of the input, no row is
  empty, the row lengths add up to the input length, and the occurrences of an interval
  over all rows are as many as in the input.
\<close>

theorem pack_partitions_input:
  "mset (concat (pack xs)) = mset xs
   \<and> [] \<notin> set (pack xs)
   \<and> sum_list (map length (pack xs)) = length xs
   \<and> sum_list (map (\<lambda>row. count_list row x) (pack xs)) = count_list xs x"
proof (intro conjI)
  show m: "mset (concat (pack xs)) = mset xs" by (rule mset_concat_pack)
  show "[] \<notin> set (pack xs)" by (rule pack_no_empty_row)
  from m have "length (concat (pack xs)) = length xs" by (rule mset_eq_length)
  then show "sum_list (map length (pack xs)) = length xs" by (simp add: length_concat)
  from m have "count (mset (concat (pack xs))) x = count (mset xs) x" by simp
  then show "sum_list (map (\<lambda>row. count_list row x) (pack xs)) = count_list xs x"
    by (simp add: count_mset count_list_concat)
qed

text \<open>
  Claim C9 (no mutation) as stated fails: \<^verbatim>\<open>customerData.sort\<close> sorts the caller's
  array in place, so a list that is not in start order has another element order after
  packing.
\<close>

theorem pack_sorts_in_place_counterexample:
  "fst (populateCustomerRows_pack
          [\<lparr>name = ''B'', startDate = 5, endDate = 6\<rparr>, \<lparr>name = ''A'', startDate = 1, endDate = 2\<rparr>])
     = [\<lparr>name = ''A'', startDate = 1, endDate = 2\<rparr>, \<lparr>name = ''B'', startDate = 5, endDate = 6\<rparr>]
   \<and> fst (populateCustomerRows_pack
          [\<lparr>name = ''B'', startDate = 5, endDate = 6\<rparr>, \<lparr>name = ''A'', startDate = 1, endDate = 2\<rparr>])
     \<noteq> [\<lparr>name = ''B'', startDate = 5, endDate = 6\<rparr>, \<lparr>name = ''A'', startDate = 1, endDate = 2\<rparr>]"
  by (simp add: populateCustomerRows_pack_def sortByStart_def Let_def)

text \<open>
  Claim C9, as amended. After packing, the caller's list is its stable sort by start
  date: a permutation of the original list, every interval with its original start and
  end dates, and the original list itself when that was in start order. The packed rows
  hold these same intervals. Term resolution and column lookup take day numbers and an
  index and return values: they have no list or interval to change.
\<close>

theorem pack_permutes_input_list:
  "fst (populateCustomerRows_pack customerData) = sort_key startDate customerData
   \<and> mset (fst (populateCustomerRows_pack customerData)) = mset customerData
   \<and> mset (concat (snd (populateCustomerRows_pack customerData))) = mset customerData
   \<and> (sorted (map startDate customerData) \<longrightarrow>
        fst (populateCustomerRows_pack customerData) = customerData)"
proof -
  have "fst (populateCustomerRows_pack customerData) = sort_key startDate customerData"
    by (cases customerData) (simp_all add: populateCustomerRows_pack_def sortByStart_def Let_def)
  moreover have "mset (concat (snd (populateCustomerRows_pack customerData))) = mset customerData"
    using mset_concat_pack [of customerData] by (simp add: pack_def)
  moreover have "sort_key startDate customerData = customerData"
    if "sorted (map startDate customerData)"
    using that by (rule sort_key_id_if_sorted)
  ultimately show ?thesis by simp
qed

text \<open>A list in start order is left as it is.\<close>

theorem pack_permutes_input_list_witness:
  "fst (populateCustomerRows_pack
          [\<lparr>name = ''A'', startDate = 1, endDate = 2\<rparr>, \<lparr>name = ''B'', startDate = 5, endDate = 6\<rparr>])
     = [\<lparr>name = ''A'', startDate = 1, endDate = 2\<rparr>, \<lparr>name = ''B'', startDate = 5, endDate = 6\<rparr>]"
  using pack_permutes_input_list
    [of "[\<lparr>name = ''A'', startDate = 1, endDate = 2\<rparr>, \<lparr>name = ''B'', startDate = 5, endDate = 6\<rparr>]"]
  by simp

section \<open>Colours\<close>

lemma seenBefore_append_old: "x \<in> set p \<Longrightarrow> seenBefore (p @ q) x = seenBefore p x"
  by (simp add: seenBefore_def takeWhile_append1)

lemma takeWhile_fresh: "x \<notin> set p \<Longrightarrow> takeWhile (\<lambda>y. y \<noteq> x) (p @ x # q) = p"
  by (induction p) auto

lemma seenBefore_append_new: "x \<notin> set p \<Longrightarrow> seenBefore (p @ x # q) x = card (set p)"
  by (simp add: seenBefore_def takeWhile_fresh)

lemma getProjectColor_step:
  assumes "colorsKnown st p"
  shows "fst (getProjectColor st x)
           = Some (availableColors ! (seenBefore (p @ [x]) x mod length availableColors))"
    and "colorsKnown (snd (getProjectColor st x)) (p @ [x])"
proof -
  show "fst (getProjectColor st x)
           = Some (availableColors ! (seenBefore (p @ [x]) x mod length availableColors))"
  proof (cases "x \<in> set p")
    case True
    with assms show ?thesis
      by (simp add: getProjectColor_def colorsKnown_def seenBefore_append_old)
  next
    case False
    with assms show ?thesis
      by (simp add: getProjectColor_def colorsKnown_def seenBefore_append_new)
  qed
  show "colorsKnown (snd (getProjectColor st x)) (p @ [x])"
  proof (cases "x \<in> set p")
    case True
    then have "insert x (set p) = set p" by auto
    with True assms show ?thesis
      by (auto simp: getProjectColor_def colorsKnown_def seenBefore_append_old fun_eq_iff)
  next
    case False
    with assms show ?thesis
      by (auto simp: getProjectColor_def colorsKnown_def seenBefore_append_old
          seenBefore_append_new fun_eq_iff)
  qed
qed

lemma colorRun_colors:
  "colorsKnown st p \<Longrightarrow>
   fst (colorRun st ids)
     = map (\<lambda>x. Some (availableColors ! (seenBefore (p @ ids) x mod length availableColors))) ids"
proof (induction ids arbitrary: st p)
  case Nil
  then show ?case by simp
next
  case (Cons x ids)
  from Cons.prems have known: "colorsKnown (snd (getProjectColor st x)) (p @ [x])"
    by (rule getProjectColor_step)
  have "seenBefore (p @ x # ids) x = seenBefore ((p @ [x]) @ ids) x" by simp
  also have "\<dots> = seenBefore (p @ [x]) x" by (rule seenBefore_append_old) simp
  finally have first: "fst (getProjectColor st x)
      = Some (availableColors ! (seenBefore (p @ x # ids) x mod length availableColors))"
    using getProjectColor_step(1) [OF Cons.prems, of x] by simp
  from Cons.IH [OF known] first show ?case
    by (simp add: case_prod_unfold Let_def)
qed

lemma colorsKnown_new: "colorsKnown newColorState []"
  by (simp add: colorsKnown_def newColorState_def)

lemma colorRun_new:
  "fst (colorRun newColorState ids)
     = map (\<lambda>x. Some (availableColors ! (seenBefore ids x mod length availableColors))) ids"
  using colorRun_colors [OF colorsKnown_new, of ids] by simp

lemma seenBefore_first:
  assumes "i < length ids" "ids ! i \<notin> set (take i ids)"
  shows "seenBefore ids (ids ! i) = card (set (take i ids))"
proof -
  have "takeWhile (\<lambda>y. y \<noteq> ids ! i) ids = take i ids"
  proof (rule takeWhile_eq_take_P_nth)
    fix j assume "j < i" "j < length ids"
    with assms show "ids ! j \<noteq> ids ! i"
      by (auto simp: in_set_conv_nth)
  next
    show "i < length ids \<Longrightarrow> \<not> ids ! i \<noteq> ids ! i" by simp
  qed
  then show ?thesis by (simp add: seenBefore_def)
qed

text \<open>
  Claim C7 (colours). In one run of the colour assigner, started fresh, every request
  for an identifier returns the palette colour at the number of distinct identifiers
  requested before its first request, modulo the palette length 19. So the first request
  of the n-th distinct identifier returns \<open>palette[(n-1) mod 19]\<close>, two requests for
  the same identifier return the same colour, and the 20th of 20 distinct identifiers
  gets \<open>palette[0]\<close>.
\<close>

theorem colorFor_stable_and_cycles:
  "fst (colorRun newColorState ids)
     = map (\<lambda>x. Some (availableColors ! (seenBefore ids x mod length availableColors))) ids
   \<and> length availableColors = 19
   \<and> (\<forall>i<length ids. ids ! i \<notin> set (take i ids) \<longrightarrow>
        fst (colorRun newColorState ids) ! i
          = Some (availableColors ! (card (set (take i ids)) mod length availableColors)))
   \<and> (\<forall>i<length ids. \<forall>j<length ids. ids ! i = ids ! j \<longrightarrow>
        fst (colorRun newColorState ids) ! i = fst (colorRun newColorState ids) ! j)
   \<and> (distinct ids \<and> length ids = 20 \<longrightarrow>
        fst (colorRun newColorState ids) ! 19 = Some (availableColors ! 0))"
proof (intro conjI allI impI)
  show "fst (colorRun newColorState ids)
     = map (\<lambda>x. Some (availableColors ! (seenBefore ids x mod length availableColors))) ids"
    by (rule colorRun_new)
  show len: "length availableColors = 19" by (simp add: availableColors_def)
  show "fst (colorRun newColorState ids) ! i
          = Some (availableColors ! (card (set (take i ids)) mod length availableColors))"
    if "i < length ids" "ids ! i \<notin> set (take i ids)" for i
    using that by (simp add: colorRun_new seenBefore_first)
  show "fst (colorRun newColorState ids) ! i = fst (colorRun newColorState ids) ! j"
    if "i < length ids" "j < length ids" "ids ! i = ids ! j" for i j
    using that by (simp add: colorRun_new)
  show "fst (colorRun newColorState ids) ! 19 = Some (availableColors ! 0)"
    if "distinct ids \<and> length ids = 20"
  proof -
    from that have d: "distinct (take 19 ids)" and l: "length (take 19 ids) = 19" by simp_all
    from that have "ids ! 19 \<notin> set (take 19 ids)"
      by (auto simp: in_set_conv_nth distinct_conv_nth)
    with that have "seenBefore ids (ids ! 19) = card (set (take 19 ids))"
      by (intro seenBefore_first) simp_all
    also from d l have "\<dots> = 19" by (simp add: distinct_card)
    finally show ?thesis using that len by (simp add: colorRun_new)
  qed
qed

text \<open>
  Two requests for ``PROJ-1'' with another identifier between them, and the last of 20
  distinct identifiers.
\<close>

theorem colorFor_stable_and_cycles_witness:
  "fst (colorRun newColorState [''PROJ-1'', ''PROJ-2'', ''PROJ-1''])
     = [Some ''#ADD8E6'', Some ''#90EE90'', Some ''#ADD8E6'']
   \<and> fst (colorRun newColorState
        [''P01'', ''P02'', ''P03'', ''P04'', ''P05'', ''P06'', ''P07'', ''P08'', ''P09'', ''P10'',
         ''P11'', ''P12'', ''P13'', ''P14'', ''P15'', ''P16'', ''P17'', ''P18'', ''P19'', ''P20'']) ! 19
     = Some ''#ADD8E6''"
proof -
  let ?three = "[''PROJ-1'', ''PROJ-2'', ''PROJ-1'']"
  let ?twenty = "[''P01'', ''P02'', ''P03'', ''P04'', ''P05'', ''P06'', ''P07'', ''P08'', ''P09'', ''P10'',
         ''P11'', ''P12'', ''P13'', ''P14'', ''P15'', ''P16'', ''P17'', ''P18'', ''P19'', ''P20'']"
  from colorFor_stable_and_cycles [of ?three]
  have "fst (colorRun newColorState ?three)
      = map (\<lambda>x. Some (availableColors ! (seenBefore ?three x mod length availableColors))) ?three"
    by (rule conjunct1)
  then have three: "fst (colorRun newColorState ?three)
      = [Some ''#ADD8E6'', Some ''#90EE90'', Some ''#ADD8E6'']"
    by (simp add: seenBefore_def availableColors_def)
  from colorFor_stable_and_cycles [of ?twenty]
  have "distinct ?twenty \<and> length ?twenty = 20 \<longrightarrow>
      fst (colorRun newColorState ?twenty) ! 19 = Some (availableColors ! 0)"
    by (elim conjE)
  moreover have "distinct ?twenty \<and> length ?twenty = 20" by simp
  ultimately have "fst (colorRun newColorState ?twenty) ! 19 = Some (availableColors ! 0)"
    by (rule mp)
  moreover have "availableColors ! 0 = ''#ADD8E6''" by (simp add: availableColors_def)
  ultimately have twenty: "fst (colorRun newColorState ?twenty) ! 19 = Some ''#ADD8E6''"
    by (simp only:)
  show ?thesis by (intro conjI) (rule three, rule twenty)
qed

end
